theory Spec2Isabelle
  imports Complex_Main "HOL-Library.Sublist"
begin

section \<open>Text tokens and the word tokenizer\<close>

text \<open>
  A JavaScript string is a sequence of code units; it is modelled as a \<open>string\<close>, one
  \<open>char\<close> for each code unit. The presets only ever compare code units with the ASCII
  characters space, full stop, exclamation mark, question mark and comma.

  Millisecond quantities are integers: every call site of the schedulers passes an integer
  literal as stagger and the pauses are integer constants, so the arithmetic of the source
  (on doubles) is exact.
\<close>

record config =
  punctPauseLong :: int
  punctPauseShort :: int

text \<open>The \<open>CONFIG\<close> block of every preset file; its font and colour fields play no part
  in the timing.\<close>

definition CONFIG :: config where
  "CONFIG = \<lparr>punctPauseLong = 300, punctPauseShort = 150\<rparr>"

text \<open>\<open>text.split(' ')\<close>: a scan that closes the current piece at every separator; empty
  pieces are kept, and the empty string yields one empty piece.\<close>

fun splitFrom :: "char \<Rightarrow> string \<Rightarrow> string \<Rightarrow> string list" where
  "splitFrom sep piece [] = [piece]"
| "splitFrom sep piece (c # cs) =
     (if c = sep then piece # splitFrom sep [] cs else splitFrom sep (piece @ [c]) cs)"

definition split :: "char \<Rightarrow> string \<Rightarrow> string list" where
  "split sep text = splitFrom sep [] text"

definition splitWords :: "string \<Rightarrow> string list" where
  "splitWords text = filter (\<lambda>w. length w > 0) (split (CHR '' '') text)"

text \<open>\<open>w.slice(-1)\<close>: the last code unit as a string, the empty string for an empty
  \<open>w\<close>.\<close>

definition sliceLast :: "string \<Rightarrow> string" where
  "sliceLast w = drop (length w - 1) w"

text \<open>\<open>s.includes(sub)\<close>: \<open>sub\<close> occurs in \<open>s\<close> as a contiguous piece; the empty string
  occurs in every string.\<close>

fun includes_str :: "string \<Rightarrow> string \<Rightarrow> bool" where
  "includes_str [] sub = (sub = [])"
| "includes_str (c # cs) sub = (take (length sub) (c # cs) = sub \<or> includes_str cs sub)"

section \<open>The delay scheduler\<close>

text \<open>One pass of the \<open>for\<close> loop of \<open>computeWordDelays\<close> at index \<open>i\<close>, on the pair of
  the \<open>delays\<close> array and the \<open>cumulative\<close> counter.\<close>

definition wordStep :: "string list \<Rightarrow> int \<Rightarrow> nat \<Rightarrow> int list \<times> int \<Rightarrow> int list \<times> int" where
  "wordStep words staggerMs i st =
     (let delays = fst st @ [snd st];
          cumulative = snd st + staggerMs;
          lastUnit = sliceLast (words ! i)
      in if includes_str ''.!?'' lastUnit then (delays, cumulative + punctPauseLong CONFIG)
         else if lastUnit = '','' then (delays, cumulative + punctPauseShort CONFIG)
         else (delays, cumulative))"

definition computeWordDelays :: "string list \<Rightarrow> int \<Rightarrow> bool \<Rightarrow> int list" where
  "computeWordDelays words staggerMs punctDelay =
     (if \<not> punctDelay then map (\<lambda>i. int i * staggerMs) [0..<length words]
      else fst (fold (wordStep words staggerMs) [0..<length words] ([], 0)))"

text \<open>\<open>computeSplitDelays\<close> of the split-timing preset. \<open>Math.ceil(words.length * 0.6)\<close>
  is the ceiling of the exact product (for an array length the rounding of the double
  product never crosses an integer); \<open>slice\<close> is \<open>take\<close> and \<open>drop\<close>.\<close>

definition computeSplitDelays :: "string list \<Rightarrow> bool \<Rightarrow> int list" where
  "computeSplitDelays words pDelay =
     (let splitAt = nat \<lceil>real (length words) * 0.6\<rceil>;
          group1 = take splitAt words;
          group2 = drop splitAt words;
          g1Delays = computeWordDelays group1 100 pDelay;
          g2Delays = computeWordDelays group2 100 pDelay;
          g1End = (if length g1Delays > 0 then g1Delays ! (length g1Delays - 1) + 100 else 0)
      in g1Delays @ map (\<lambda>d. d + g1End + 400) g2Delays)"

text \<open>The pause that one pass of the loop adds after the stagger, as a function of the word
  (lines 59 to 61 of \<open>computeWordDelays\<close>); the theorems are stated with it.\<close>

definition pauseAfter :: "string \<Rightarrow> int" where
  "pauseAfter w =
     (if includes_str ''.!?'' (sliceLast w) then punctPauseLong CONFIG
      else if sliceLast w = '','' then punctPauseShort CONFIG
      else 0)"

definition offsetBefore :: "string list \<Rightarrow> int \<Rightarrow> nat \<Rightarrow> int" where
  "offsetBefore words staggerMs i =
     sum_list (map (\<lambda>w. staggerMs + pauseAfter w) (take i words))"

text \<open>The cumulative-offset algorithm as the specification words it, with the two
  punctuation steps left out: assign the running offset, then advance it by the stagger.\<close>

definition plainStep :: "int \<Rightarrow> nat \<Rightarrow> int list \<times> int \<Rightarrow> int list \<times> int" where
  "plainStep staggerMs i st = (fst st @ [snd st], snd st + staggerMs)"

definition cumulativeDelays :: "string list \<Rightarrow> int \<Rightarrow> int list" where
  "cumulativeDelays words staggerMs =
     fst (fold (plainStep staggerMs) [0..<length words] ([], 0))"

section \<open>Rendering of word tokens and whitespace\<close>

text \<open>Every word preset renders each word followed by one space
  (\<open>{word}{' '}\<close>), in the order of the words.\<close>

definition renderWords :: "string list \<Rightarrow> string" where
  "renderWords words = concat (map (\<lambda>w. w @ '' '') words)"

text \<open>Concatenation with a separator between neighbours (\<open>join\<close>).\<close>

fun joinWith :: "string \<Rightarrow> string list \<Rightarrow> string" where
  "joinWith sep [] = []"
| "joinWith sep [w] = w"
| "joinWith sep (w # v # ws) = w @ sep @ joinWith sep (v # ws)"

text \<open>Whitespace collapsing as the specification words it, defined on the characters and
  not through the tokenizer: every run of spaces becomes one space, and the spaces at both
  ends are removed.\<close>

fun squeezeSpaces :: "string \<Rightarrow> string" where
  "squeezeSpaces (c # d # cs) =
     (if c = CHR '' '' \<and> d = CHR '' '' then squeezeSpaces (d # cs)
      else c # squeezeSpaces (d # cs))"
| "squeezeSpaces cs = cs"

definition dropTrailingSpaces :: "string \<Rightarrow> string" where
  "dropTrailingSpaces s = rev (dropWhile (\<lambda>c. c = CHR '' '') (rev s))"

definition trimSpaces :: "string \<Rightarrow> string" where
  "trimSpaces s = dropTrailingSpaces (dropWhile (\<lambda>c. c = CHR '' '') s)"

definition collapseSpaces :: "string \<Rightarrow> string" where
  "collapseSpaces t = trimSpaces (squeezeSpaces t)"

section \<open>The emphasis preset (Skew Pop)\<close>

text \<open>
  The animation descriptors a preset assigns to a shared value. Only their timing matters
  here: \<open>withTiming\<close> interpolates to a target over a duration, \<open>withDelay\<close> postpones an
  animation, \<open>withSequence\<close> runs animations one after the other. Easing curves shape the
  interpolation inside its duration and are left out.
\<close>

datatype anim =
    WithTiming int int
  | WithDelay int anim
  | WithSequence "anim list"

text \<open>Milliseconds from the assignment until the first interpolation begins, and until
  the last one has ended.\<close>

fun beginsAfter :: "anim \<Rightarrow> int" where
  "beginsAfter (WithTiming target duration) = 0"
| "beginsAfter (WithDelay ms a) = ms + beginsAfter a"
| "beginsAfter (WithSequence []) = 0"
| "beginsAfter (WithSequence (a # as)) = beginsAfter a"

fun endsAfter :: "anim \<Rightarrow> int" where
  "endsAfter (WithTiming target duration) = duration"
| "endsAfter (WithDelay ms a) = ms + endsAfter a"
| "endsAfter (WithSequence as) = sum_list (map endsAfter as)"

record skewPopTracks =
  opacity :: "anim option"
  skewX :: "anim option"
  colorProgress :: "anim option"

text \<open>The effect of \<open>SkewPopWord\<close>: the animation assigned to each shared value, \<open>None\<close>
  where the value is only reset.\<close>

definition SkewPopWord :: "int \<Rightarrow> bool \<Rightarrow> bool \<Rightarrow> skewPopTracks" where
  "SkewPopWord delay isPlaying isEmphasis =
     (if isPlaying then
        \<lparr>opacity = Some (WithDelay delay (WithTiming 1 300)),
         skewX = (if isEmphasis
                  then Some (WithDelay 600 (WithSequence [WithTiming (- 12) 200, WithTiming 0 400]))
                  else None),
         colorProgress = (if isEmphasis then Some (WithDelay 600 (WithTiming 1 400)) else None)\<rparr>
      else \<lparr>opacity = None, skewX = None, colorProgress = None\<rparr>)"

definition emphasisIndex :: "string list \<Rightarrow> int" where
  "emphasisIndex words = min 2 (int (length words) - 1)"

text \<open>\<open>SkewPop\<close>: the properties (word, delay, isEmphasis) handed to each
  \<open>SkewPopWord\<close>.\<close>

definition SkewPop :: "string \<Rightarrow> bool \<Rightarrow> (string \<times> int \<times> bool) list" where
  "SkewPop text punctuationDelay =
     (let words = splitWords text;
          delays = computeWordDelays words 80 punctuationDelay
      in map (\<lambda>i. (words ! i, delays ! i, int i = emphasisIndex words)) [0..<length words])"

text \<open>The order that the header of the preset describes (words appear, then the emphasis):
  no emphasis track begins before the opacity reveal of the word has ended.\<close>

definition revealThenEmphasis :: "skewPopTracks \<Rightarrow> bool" where
  "revealThenEmphasis t =
     (case opacity t of
        None \<Rightarrow> True
      | Some reveal \<Rightarrow>
          (case skewX t of None \<Rightarrow> True | Some a \<Rightarrow> endsAfter reveal \<le> beginsAfter a)
          \<and> (case colorProgress t of None \<Rightarrow> True | Some a \<Rightarrow> endsAfter reveal \<le> beginsAfter a))"

section \<open>The shimmer intensity\<close>

text \<open>The shimmer position and the intensities are real numbers here; the source computes
  them in double precision.\<close>

definition wordIntensity :: "real \<Rightarrow> nat \<Rightarrow> real" where
  "wordIntensity shimmerPos index =
     (let dist = \<bar>shimmerPos - real index\<bar> in max 0 (1 - dist * 0.8))"

definition charPos :: "nat \<Rightarrow> nat \<Rightarrow> real" where
  "charPos index totalChars =
     (if totalChars > 0 then real index / (real totalChars / 4) else 0)"

definition charIntensity :: "real \<Rightarrow> nat \<Rightarrow> nat \<Rightarrow> real" where
  "charIntensity shimmerPos index totalChars =
     (let dist = \<bar>shimmerPos - charPos index totalChars\<bar> in max 0 (1 - dist * 0.6))"

section \<open>The Typewriter preset\<close>

text \<open>
  The state of one \<open>Typewriter\<close>: the \<open>visibleChars\<close> state, the \<open>index\<close> variable of
  the running effect, and the timeout that is scheduled and has not fired yet, with its
  delay (\<open>timeoutRef\<close> holds its handle).
\<close>

record typewriter =
  visibleChars :: nat
  index :: nat
  timer :: "int option"

definition typeNext :: "string \<Rightarrow> bool \<Rightarrow> typewriter \<Rightarrow> typewriter" where
  "typeNext text punctuationDelay s =
     (if index s \<ge> length text then s
      else
        let s1 = s\<lparr>index := index s + 1, visibleChars := index s + 1\<rparr>
        in if index s1 \<ge> length text then s1
           else
             let justTyped = [text ! (index s1 - 1)];
                 delay = 80 +
                   (if punctuationDelay then
                      (if includes_str ''.!?'' justTyped then punctPauseLong CONFIG
                       else if justTyped = '','' then punctPauseShort CONFIG
                       else 0)
                    else 0)
             in s1\<lparr>timer := Some delay\<rparr>)"

text \<open>The scheduled timeout fires: it is no longer pending and \<open>typeNext\<close> runs.\<close>

definition fire :: "string \<Rightarrow> bool \<Rightarrow> typewriter \<Rightarrow> typewriter" where
  "fire text punctuationDelay s =
     (case timer s of
        None \<Rightarrow> s
      | Some d \<Rightarrow> typeNext text punctuationDelay (s\<lparr>timer := None\<rparr>))"

text \<open>The typing effect, run when \<open>isPlaying\<close>, \<open>text\<close> or \<open>punctuationDelay\<close> change:
  it clears the pending timeout, resets the count and, when playing, schedules the first
  step after 80 ms.\<close>

definition typingEffect :: "string \<Rightarrow> bool \<Rightarrow> bool \<Rightarrow> typewriter \<Rightarrow> typewriter" where
  "typingEffect text isPlaying punctuationDelay s =
     (let s0 = s\<lparr>timer := None\<rparr>
      in if \<not> isPlaying then s0\<lparr>visibleChars := 0\<rparr>
         else s0\<lparr>visibleChars := 0, index := 0, timer := Some 80\<rparr>)"

text \<open>A play cycle: the effect starts it, then \<open>k\<close> timeouts fire.\<close>

definition playCycle :: "string \<Rightarrow> bool \<Rightarrow> nat \<Rightarrow> typewriter \<Rightarrow> typewriter" where
  "playCycle text punctuationDelay k s =
     (fire text punctuationDelay ^^ k) (typingEffect text True punctuationDelay s)"

text \<open>\<open>text.slice(0, visibleChars)\<close>, the string on the screen.\<close>

definition rendered :: "string \<Rightarrow> typewriter \<Rightarrow> string" where
  "rendered text s = take (visibleChars s) text"

section \<open>Properties of the delay scheduler\<close>

lemma wordStep_pause:
  "wordStep words s i (ds, c) = (ds @ [c], c + s + pauseAfter (words ! i))"
  by (simp add: wordStep_def pauseAfter_def Let_def)

lemma offsetBefore_0: "offsetBefore words s 0 = 0"
  by (simp add: offsetBefore_def)

lemma offsetBefore_Suc:
  "n < length words \<Longrightarrow>
   offsetBefore words s (Suc n) = offsetBefore words s n + s + pauseAfter (words ! n)"
  by (simp add: offsetBefore_def take_Suc_conv_app_nth)

lemma fold_wordStep:
  "n \<le> length words \<Longrightarrow>
   fold (wordStep words s) [0..<n] ([], 0) =
     (map (offsetBefore words s) [0..<n], offsetBefore words s n)"
proof (induction n)
  case 0
  show ?case by (simp add: offsetBefore_0)
next
  case (Suc n)
  then have lt: "n < length words"
    and IH: "fold (wordStep words s) [0..<n] ([], 0) =
      (map (offsetBefore words s) [0..<n], offsetBefore words s n)"
    by simp_all
  show ?case
    by (simp add: IH wordStep_pause offsetBefore_Suc [OF lt])
qed

lemma computeWordDelays_punct:
  "computeWordDelays words s True = map (offsetBefore words s) [0..<length words]"
  by (simp add: computeWordDelays_def fold_wordStep)

lemma computeWordDelays_plain:
  "computeWordDelays words s False = map (\<lambda>i. int i * s) [0..<length words]"
  by (simp add: computeWordDelays_def)

lemma length_computeWordDelays:
  "length (computeWordDelays words s p) = length words"
  by (cases p) (simp_all add: computeWordDelays_punct computeWordDelays_plain)

lemma pauseAfter_nonneg: "0 \<le> pauseAfter w"
  by (simp add: pauseAfter_def CONFIG_def)

lemma offsetBefore_update:
  "i \<le> k \<Longrightarrow> offsetBefore (words[k := w]) s i = offsetBefore words s i"
  by (simp add: offsetBefore_def)

text \<open>
  Claim C1. With punctuation pausing enabled, the delay of a token is the cumulative offset
  of the tokens before it (their staggers and the pauses they trigger); the pause that its
  own last character triggers is not part of it, so replacing the token leaves its delay
  unchanged. With stagger 100 the tokens "Hi," and "there" get the delays 0 and 250 (short
  pause 150), the tokens "Stop." and "Now" the delays 0 and 400 (long pause 300).
\<close>

theorem punctuation_pause_after_token:
  assumes "i < length words"
  shows "computeWordDelays [''Hi,'', ''there''] 100 True = [0, 250]
       \<and> computeWordDelays [''Stop.'', ''Now''] 100 True = [0, 400]
       \<and> computeWordDelays words staggerMs True ! i =
            sum_list (map (\<lambda>w. staggerMs + pauseAfter w) (take i words))
       \<and> computeWordDelays (words[i := w']) staggerMs True ! i =
            computeWordDelays words staggerMs True ! i"
proof -
  have a: "computeWordDelays [''Hi,'', ''there''] 100 True = [0, 250]"
    by (simp add: computeWordDelays_def wordStep_def sliceLast_def CONFIG_def)
  have b: "computeWordDelays [''Stop.'', ''Now''] 100 True = [0, 400]"
    by (simp add: computeWordDelays_def wordStep_def sliceLast_def CONFIG_def)
  have c: "computeWordDelays words staggerMs True ! i = offsetBefore words staggerMs i"
    using assms by (simp add: computeWordDelays_punct)
  have d: "computeWordDelays (words[i := w']) staggerMs True ! i =
      offsetBefore (words[i := w']) staggerMs i"
    using assms by (simp add: computeWordDelays_punct)
  show ?thesis
    using a b c d by (simp add: offsetBefore_update) (simp add: offsetBefore_def)
qed

theorem punctuation_pause_after_token_witness:
  "(1::nat) < length [''Hi,'', ''there'']
   \<and> computeWordDelays [''Hi,'', ''there''] 100 True ! 1 = 100 + pauseAfter ''Hi,''
   \<and> computeWordDelays [''Hi,'', ''there.''] 100 True ! 1 = 250"
  using punctuation_pause_after_token [of 1 "[''Hi,'', ''there'']" 100 "''there.''"]
  by (simp add: pauseAfter_def sliceLast_def CONFIG_def)

text \<open>
  Claim C9. Empty input is not an error: the empty string has no word tokens, and the delay
  scheduler and its split-timing variant return the empty plan on the empty token sequence,
  whatever the stagger and the punctuation setting.
\<close>

theorem empty_input_empty_plan:
  "splitWords '''' = []
   \<and> computeWordDelays [] staggerMs punctDelay = []
   \<and> computeSplitDelays [] pDelay = []
   \<and> computeSplitDelays (splitWords '''') pDelay = []"
  by (simp add: splitWords_def split_def computeWordDelays_def computeSplitDelays_def)

lemma fold_plainStep:
  "fold (plainStep s) [0..<n] ([], 0) = (map (\<lambda>i. int i * s) [0..<n], int n * s)"
  by (induction n) (simp_all add: plainStep_def algebra_simps)

lemma offsetBefore_no_pause:
  "\<forall>w \<in> set words. pauseAfter w = 0 \<Longrightarrow> i \<le> length words \<Longrightarrow>
   offsetBefore words s i = int i * s"
proof (induction i)
  case 0
  show ?case by (simp add: offsetBefore_0)
next
  case (Suc i)
  then have "pauseAfter (words ! i) = 0" by simp
  with Suc show ?case by (simp add: offsetBefore_Suc algebra_simps)
qed

lemma paths_agree_without_punctuation:
  "\<forall>w \<in> set words. pauseAfter w = 0 \<Longrightarrow>
   computeWordDelays words s True = computeWordDelays words s False"
  by (simp add: computeWordDelays_punct computeWordDelays_plain offsetBefore_no_pause)

text \<open>
  Claim C4. With punctuation pausing disabled the plan has one delay for each token and the
  delay at index \<open>i\<close> is \<open>i * staggerMs\<close>, whatever the tokens contain; this fast path
  returns the same plan as the cumulative-offset loop with the punctuation steps left out.
\<close>

theorem fast_path_index_times_stagger:
  assumes "i < length words"
  shows "length (computeWordDelays words staggerMs False) = length words
   \<and> computeWordDelays words staggerMs False ! i = int i * staggerMs
   \<and> (length words' = length words \<longrightarrow>
        computeWordDelays words' staggerMs False = computeWordDelays words staggerMs False)
   \<and> computeWordDelays words staggerMs False = cumulativeDelays words staggerMs"
  using assms by (simp add: computeWordDelays_plain cumulativeDelays_def fold_plainStep)

theorem fast_path_index_times_stagger_witness:
  "(2::nat) < length [''Stop.'', ''Now,'', ''go'']
   \<and> computeWordDelays [''Stop.'', ''Now,'', ''go''] 30 False ! 2 = 60
   \<and> computeWordDelays [''a'', ''b'', ''c''] 30 False =
       computeWordDelays [''Stop.'', ''Now,'', ''go''] 30 False
   \<and> cumulativeDelays [''Stop.'', ''Now,'', ''go''] 30 = [0, 30, 60]"
  using fast_path_index_times_stagger [of 2 "[''Stop.'', ''Now,'', ''go'']" 30 "[''a'', ''b'', ''c'']"]
  by (simp add: computeWordDelays_plain cumulativeDelays_def plainStep_def upt_rec)

lemma computeWordDelays_first:
  "words \<noteq> [] \<Longrightarrow> computeWordDelays words s p ! 0 = 0"
  by (cases p) (simp_all add: computeWordDelays_punct computeWordDelays_plain offsetBefore_0)

lemma computeWordDelays_next:
  "Suc i < length words \<Longrightarrow>
   computeWordDelays words s p ! Suc i =
     computeWordDelays words s p ! i + s + (if p then pauseAfter (words ! i) else 0)"
  by (cases p)
     (simp_all add: computeWordDelays_punct computeWordDelays_plain offsetBefore_Suc algebra_simps)

lemma splitAt_le: "nat \<lceil>real n * 0.6\<rceil> \<le> n"
proof -
  have "real n * 0.6 \<le> real_of_int (int n)" by simp
  then have "\<lceil>real n * 0.6\<rceil> \<le> int n" by (rule ceiling_le)
  then show ?thesis by simp
qed

lemma splitAt_pos: "0 < n \<Longrightarrow> 0 < nat \<lceil>real n * 0.6\<rceil>"
  by simp

lemma computeSplitDelays_eq:
  "computeSplitDelays words p =
     (let k = nat \<lceil>real (length words) * 0.6\<rceil>;
          d1 = computeWordDelays (take k words) 100 p;
          d2 = computeWordDelays (drop k words) 100 p
      in d1 @ map (\<lambda>d. d + (if 0 < k then d1 ! (k - 1) + 100 else 0) + 400) d2)"
proof -
  define k where "k = nat \<lceil>real (length words) * 0.6\<rceil>"
  have kle: "k \<le> length words"
    unfolding k_def by (rule splitAt_le)
  have len: "length (computeWordDelays (take k words) 100 p) = k"
    using kle by (simp add: length_computeWordDelays)
  show ?thesis
    unfolding computeSplitDelays_def Let_def k_def [symmetric] len ..
qed

lemma length_computeSplitDelays:
  "length (computeSplitDelays words p) = length words"
  using splitAt_le [of "length words"]
  by (simp add: computeSplitDelays_eq Let_def length_computeWordDelays)


lemma computeWordDelays_step_ge:
  "Suc i < length words \<Longrightarrow>
   computeWordDelays words s p ! i + s \<le> computeWordDelays words s p ! Suc i"
  using pauseAfter_nonneg [of "words ! i"] by (simp add: computeWordDelays_next)

lemma computeSplitDelays_step_ge:
  assumes "Suc i < length words"
  shows "computeSplitDelays words p ! i + 100 \<le> computeSplitDelays words p ! Suc i"
proof -
  define k where "k = nat \<lceil>real (length words) * 0.6\<rceil>"
  define d1 where "d1 = computeWordDelays (take k words) 100 p"
  define d2 where "d2 = computeWordDelays (drop k words) 100 p"
  define c where "c = (if 0 < k then d1 ! (k - 1) + 100 else 0) + 400"
  have kle: "k \<le> length words"
    unfolding k_def by (rule splitAt_le)
  have len1: "length d1 = k"
    using kle by (simp add: d1_def length_computeWordDelays)
  have len2: "length d2 = length words - k"
    by (simp add: d2_def length_computeWordDelays)
  have e: "computeSplitDelays words p = d1 @ map (\<lambda>d. d + c) d2"
    by (simp add: computeSplitDelays_eq Let_def k_def d1_def d2_def c_def add.assoc)
  consider (left) "Suc i < k" | (gap) "Suc i = k" | (right) "k \<le> i"
    by linarith
  then show ?thesis
  proof cases
    case left
    then have "Suc i < length (take k words)" using kle by simp
    then have "d1 ! i + 100 \<le> d1 ! Suc i"
      unfolding d1_def by (rule computeWordDelays_step_ge)
    with left show ?thesis by (simp add: e nth_append len1)
  next
    case gap
    then have "drop k words \<noteq> []" using assms by simp
    then have "d2 ! 0 = 0"
      unfolding d2_def by (rule computeWordDelays_first)
    moreover have "0 < length d2" using gap assms by (simp add: len2)
    moreover have "k - 1 = i" and "0 < k" using gap by simp_all
    ultimately show ?thesis
      using gap by (simp add: e nth_append len1 c_def)
  next
    case right
    then have "Suc (i - k) < length (drop k words)" using assms by simp
    then have "d2 ! (i - k) + 100 \<le> d2 ! Suc (i - k)"
      unfolding d2_def by (rule computeWordDelays_step_ge)
    moreover have "Suc i - k = Suc (i - k)" using right by simp
    moreover have "Suc (i - k) < length d2" using right assms by (simp add: len2)
    ultimately show ?thesis
      using right by (simp add: e nth_append len1)
  qed
qed

text \<open>
  Claim C2. The stagger is a number of milliseconds that is not negative (every call site
  passes a positive integer literal) and the pauses are the constants of \<open>CONFIG\<close>. For
  every token sequence, every such stagger and both punctuation settings the plan has one
  delay for each token, is non-decreasing in the token index, and adjacent delays differ by
  at least the stagger; the same holds for \<open>computeSplitDelays\<close>, whose stagger is 100.
\<close>

theorem delays_non_decreasing:
  assumes "0 \<le> staggerMs" and "Suc i < length words"
  shows "length (computeWordDelays words staggerMs p) = length words
       \<and> length (computeSplitDelays words p) = length words
       \<and> computeWordDelays words staggerMs p ! i \<le> computeWordDelays words staggerMs p ! Suc i
       \<and> staggerMs \<le> computeWordDelays words staggerMs p ! Suc i
                       - computeWordDelays words staggerMs p ! i
       \<and> computeSplitDelays words p ! i \<le> computeSplitDelays words p ! Suc i
       \<and> 100 \<le> computeSplitDelays words p ! Suc i - computeSplitDelays words p ! i"
  using assms(1) computeWordDelays_step_ge [OF assms(2), of staggerMs p]
    computeSplitDelays_step_ge [OF assms(2), of p]
  by (simp add: length_computeWordDelays length_computeSplitDelays)

theorem delays_non_decreasing_witness:
  "(0::int) \<le> 30
   \<and> Suc 2 < length [''a,'', ''b'', ''c.'', ''d'', ''e'']
   \<and> computeWordDelays [''a,'', ''b'', ''c.'', ''d'', ''e''] 30 True ! 2
       \<le> computeWordDelays [''a,'', ''b'', ''c.'', ''d'', ''e''] 30 True ! Suc 2
   \<and> 30 \<le> computeWordDelays [''a,'', ''b'', ''c.'', ''d'', ''e''] 30 True ! Suc 2
            - computeWordDelays [''a,'', ''b'', ''c.'', ''d'', ''e''] 30 True ! 2
   \<and> computeSplitDelays [''a,'', ''b'', ''c.'', ''d'', ''e''] True ! 2
       \<le> computeSplitDelays [''a,'', ''b'', ''c.'', ''d'', ''e''] True ! Suc 2
   \<and> 100 \<le> computeSplitDelays [''a,'', ''b'', ''c.'', ''d'', ''e''] True ! Suc 2
             - computeSplitDelays [''a,'', ''b'', ''c.'', ''d'', ''e''] True ! 2"
  using delays_non_decreasing [of 30 2 "[''a,'', ''b'', ''c.'', ''d'', ''e'']" True]
  by simp

text \<open>
  Claim C3. The split-timing plan cuts the words at \<open>ceil(count * 0.6)\<close>, schedules both
  groups on their own with stagger 100 and shifts the second group by the last delay of the
  first group plus 100 plus 400. Five tokens without punctuation pausing get the delays
  0, 100, 200, 700, 800.
\<close>

theorem split_timing_two_phase:
  assumes "words \<noteq> []"
  shows "computeSplitDelays words pDelay =
           (let splitAt = nat \<lceil>real (length words) * 0.6\<rceil>;
                d1 = computeWordDelays (take splitAt words) 100 pDelay;
                d2 = computeWordDelays (drop splitAt words) 100 pDelay
            in d1 @ map (\<lambda>d. d + (last d1 + 100) + 400) d2)
       \<and> (length words = 5 \<longrightarrow> computeSplitDelays words False = [0, 100, 200, 700, 800])"
proof -
  define k where "k = nat \<lceil>real (length words) * 0.6\<rceil>"
  define d1 where "d1 = computeWordDelays (take k words) 100 pDelay"
  have kle: "k \<le> length words"
    unfolding k_def by (rule splitAt_le)
  have kpos: "0 < k"
    unfolding k_def using assms by (simp add: splitAt_pos)
  have len1: "length d1 = k"
    using kle by (simp add: d1_def length_computeWordDelays)
  then have "d1 \<noteq> []" using kpos by auto
  then have "last d1 = d1 ! (k - 1)"
    by (simp add: last_conv_nth len1)
  then have general: "computeSplitDelays words pDelay =
           (let splitAt = nat \<lceil>real (length words) * 0.6\<rceil>;
                d1 = computeWordDelays (take splitAt words) 100 pDelay;
                d2 = computeWordDelays (drop splitAt words) 100 pDelay
            in d1 @ map (\<lambda>d. d + (last d1 + 100) + 400) d2)"
    using kpos by (simp add: computeSplitDelays_eq Let_def k_def d1_def)
  have five: "computeSplitDelays words False = [0, 100, 200, 700, 800]" if "length words = 5"
  proof -
    have "nat \<lceil>real (length words) * 0.6\<rceil> = 3" using that by simp
    then show ?thesis
      using that assms
      by (simp add: computeSplitDelays_def computeWordDelays_plain Let_def upt_rec)
  qed
  from general five show ?thesis by (intro conjI impI)
qed

theorem split_timing_two_phase_witness:
  "[''Rhythm'', ''defines'', ''how'', ''we'', ''read''] \<noteq> []
   \<and> length [''Rhythm'', ''defines'', ''how'', ''we'', ''read''] = 5
   \<and> computeSplitDelays [''Rhythm'', ''defines'', ''how'', ''we'', ''read''] False
       = [0, 100, 200, 700, 800]"
proof -
  have h: "[''Rhythm'', ''defines'', ''how'', ''we'', ''read''] \<noteq> []"
    by simp
  have "length [''Rhythm'', ''defines'', ''how'', ''we'', ''read''] = 5 \<longrightarrow>
      computeSplitDelays [''Rhythm'', ''defines'', ''how'', ''we'', ''read''] False
        = [0, 100, 200, 700, 800]"
    using split_timing_two_phase [OF h, of False] by (rule conjunct2)
  then show ?thesis by simp
qed

section \<open>The emphasis preset\<close>

lemma length_SkewPop: "length (SkewPop text p) = length (splitWords text)"
  by (simp add: SkewPop_def Let_def)

lemma emphasisIndex_range:
  "words \<noteq> [] \<Longrightarrow> 0 \<le> emphasisIndex words \<and> emphasisIndex words < int (length words)"
  by (cases words) (simp_all add: emphasisIndex_def)

lemma filter_upt_eq:
  "k < n \<Longrightarrow> filter (\<lambda>i. i = k) [0..<n] = [k]"
proof (induction n)
  case 0
  then show ?case by simp
next
  case (Suc n)
  show ?case
  proof (cases "k < n")
    case True
    with Suc.IH show ?thesis by simp
  next
    case False
    with Suc.prems have "k = n" by simp
    moreover have "filter (\<lambda>i. i = n) [0..<n] = []"
      by (simp add: filter_empty_conv)
    ultimately show ?thesis by simp
  qed
qed

text \<open>
  Claim C6. For a text with at least one word, Skew Pop marks exactly one word as the
  emphasis word, the one at index \<open>min 2 (count - 1)\<close>; for 1, 2, 3 and 10 words the index is
  0, 1, 2 and 2.
\<close>

theorem emphasis_token_selection:
  assumes "splitWords text \<noteq> []"
  shows "emphasisIndex (splitWords text) = min 2 (int (length (splitWords text)) - 1)
       \<and> filter (\<lambda>i. snd (snd (SkewPop text p ! i))) [0..<length (SkewPop text p)]
           = [nat (min 2 (int (length (splitWords text)) - 1))]
       \<and> (length (splitWords text) = 1 \<longrightarrow> emphasisIndex (splitWords text) = 0)
       \<and> (length (splitWords text) = 2 \<longrightarrow> emphasisIndex (splitWords text) = 1)
       \<and> (length (splitWords text) = 3 \<longrightarrow> emphasisIndex (splitWords text) = 2)
       \<and> (length (splitWords text) = 10 \<longrightarrow> emphasisIndex (splitWords text) = 2)"
proof -
  define ws where "ws = splitWords text"
  define k where "k = nat (emphasisIndex ws)"
  have rng: "0 \<le> emphasisIndex ws" "emphasisIndex ws < int (length ws)"
    using assms emphasisIndex_range [of ws] by (simp_all add: ws_def)
  then have klt: "k < length ws" by (simp add: k_def)
  have flag: "snd (snd (SkewPop text p ! i)) = (i = k)" if "i < length ws" for i
    using that rng by (auto simp add: SkewPop_def Let_def ws_def [symmetric] k_def)
  have "filter (\<lambda>i. snd (snd (SkewPop text p ! i))) [0..<length ws]
      = filter (\<lambda>i. i = k) [0..<length ws]"
    by (rule filter_cong) (simp_all add: flag)
  also have "\<dots> = [k]" using klt by (rule filter_upt_eq)
  finally have one: "filter (\<lambda>i. snd (snd (SkewPop text p ! i))) [0..<length (SkewPop text p)]
      = [nat (min 2 (int (length ws) - 1))]"
    by (simp add: length_SkewPop ws_def k_def emphasisIndex_def)
  show ?thesis
    using one by (simp add: ws_def emphasisIndex_def)
qed

theorem emphasis_token_selection_witness:
  "splitWords ''Make the important stand'' \<noteq> []
   \<and> emphasisIndex (splitWords ''Make the important stand'') = 2
   \<and> filter (\<lambda>i. snd (snd (SkewPop ''Make the important stand'' True ! i)))
        [0..<length (SkewPop ''Make the important stand'' True)] = [2]"
proof -
  have h: "splitWords ''Make the important stand'' \<noteq> []"
    by (simp add: splitWords_def split_def)
  have n: "length (splitWords ''Make the important stand'') = 4"
    by (simp add: splitWords_def split_def)
  show ?thesis
    using h emphasis_token_selection [OF h, of True] by (simp add: n)
qed

lemma emphasis_after_reveal_iff:
  "revealThenEmphasis (SkewPopWord delay True True) \<longleftrightarrow> delay \<le> 300"
  by (auto simp add: revealThenEmphasis_def SkewPopWord_def)

lemma emphasis_after_reveal_without_pauses:
  assumes "(w, d, True) \<in> set (SkewPop text False)"
  shows "revealThenEmphasis (SkewPopWord d True True)"
proof -
  from assms obtain i where i: "i < length (splitWords text)"
    and d: "d = computeWordDelays (splitWords text) 80 False ! i"
    and e: "int i = emphasisIndex (splitWords text)"
    by (auto simp add: SkewPop_def Let_def)
  from e have "i \<le> 2" by (simp add: emphasisIndex_def)
  with i d have "d \<le> 300" by (simp add: computeWordDelays_plain)
  then show ?thesis by (simp add: emphasis_after_reveal_iff)
qed

text \<open>
  Claim C5. The emphasis of the designated Skew Pop word should begin only after the base
  reveal of that word has completed. The emphasis tracks are delayed by a fixed 600 ms,
  while the reveal is delayed by the computed delay of the word and lasts 300 ms: the order
  holds exactly when that delay is at most 300 ms, as it is without punctuation pauses. For
  the text "Wait. Stop. Now" with punctuation pauses the designated word is revealed from
  760 ms to 1060 ms and its emphasis begins at 600 ms.
\<close>

theorem emphasis_begins_before_reveal_ends:
  "SkewPop ''Wait. Stop. Now'' True =
     [(''Wait.'', 0, False), (''Stop.'', 380, False), (''Now'', 760, True)]
   \<and> opacity (SkewPopWord 760 True True) = Some (WithDelay 760 (WithTiming 1 300))
   \<and> endsAfter (WithDelay 760 (WithTiming 1 300)) = 1060
   \<and> map_option beginsAfter (skewX (SkewPopWord 760 True True)) = Some 600
   \<and> map_option beginsAfter (colorProgress (SkewPopWord 760 True True)) = Some 600
   \<and> \<not> revealThenEmphasis (SkewPopWord 760 True True)"
  by (simp add: SkewPop_def splitWords_def split_def computeWordDelays_def wordStep_def
      sliceLast_def CONFIG_def emphasisIndex_def SkewPopWord_def revealThenEmphasis_def upt_rec)

section \<open>The shimmer intensity lies between 0 and 1\<close>

text \<open>
  Claim C7. For every shimmer position and every token the intensity is
  \<open>max 0 (1 - |position - coordinate| * falloff)\<close>, with the token index as coordinate and
  falloff 0.8 for the word shimmer, and with \<open>index / (totalChars / 4)\<close> and falloff 0.6 for the
  letter shimmer; it lies between 0 and 1.
\<close>

theorem shimmer_intensity_formula:
  assumes "idx < totalChars"
  shows "wordIntensity shimmerPos idx = max 0 (1 - \<bar>shimmerPos - real idx\<bar> * 0.8)
       \<and> 0 \<le> wordIntensity shimmerPos idx \<and> wordIntensity shimmerPos idx \<le> 1
       \<and> charIntensity shimmerPos idx totalChars
           = max 0 (1 - \<bar>shimmerPos - real idx / (real totalChars / 4)\<bar> * 0.6)
       \<and> 0 \<le> charIntensity shimmerPos idx totalChars
       \<and> charIntensity shimmerPos idx totalChars \<le> 1"
  using assms by (simp add: wordIntensity_def charIntensity_def charPos_def Let_def)

theorem shimmer_intensity_formula_witness:
  "(2::nat) < 8 \<and> wordIntensity 2.5 2 = 0.6 \<and> charIntensity 2 2 8 = 0.4"
  using shimmer_intensity_formula [of 2 8 "2.5"] shimmer_intensity_formula [of 2 8 2]
  by simp

section \<open>The Typewriter reveal\<close>

lemma typeNext_more:
  "index s < length text \<Longrightarrow>
   visibleChars (typeNext text pd s) = index s + 1
   \<and> index (typeNext text pd s) = index s + 1
   \<and> (timer (typeNext text pd s) \<noteq> None \<longleftrightarrow> timer s \<noteq> None \<or> index s + 1 < length text)"
  by (auto simp add: typeNext_def Let_def)

lemma typeNext_done:
  "length text \<le> index s \<Longrightarrow> typeNext text pd s = s"
  by (simp add: typeNext_def)

lemma playCycle_0:
  "playCycle text pd 0 s = s\<lparr>timer := Some 80, visibleChars := 0, index := 0\<rparr>"
  by (simp add: playCycle_def typingEffect_def)

lemma playCycle_Suc:
  "playCycle text pd (Suc k) s = fire text pd (playCycle text pd k s)"
  by (simp add: playCycle_def)

lemma playCycle_inv:
  "visibleChars (playCycle text pd k s) = min k (length text)
   \<and> index (playCycle text pd k s) = min k (length text)
   \<and> (timer (playCycle text pd k s) \<noteq> None \<longleftrightarrow> k = 0 \<or> k < length text)"
proof (induction k)
  case 0
  show ?case by (simp add: playCycle_0)
next
  case (Suc k)
  define st where "st = playCycle text pd k s"
  from Suc have v: "visibleChars st = min k (length text)"
    and i: "index st = min k (length text)"
    and t: "timer st \<noteq> None \<longleftrightarrow> k = 0 \<or> k < length text"
    by (simp_all add: st_def)
  show ?case
  proof (cases "timer st")
    case None
    with t have "0 < k" "length text \<le> k" by auto
    with None v i show ?thesis
      by (simp add: playCycle_Suc st_def [symmetric] fire_def)
  next
    case (Some d)
    then have f: "fire text pd st = typeNext text pd (st\<lparr>timer := None\<rparr>)"
      by (simp add: fire_def)
    show ?thesis
    proof (cases "k < length text")
      case True
      then have "index (st\<lparr>timer := None\<rparr>) < length text" using i by simp
      from typeNext_more [OF this, of pd] True i show ?thesis
        by (simp add: playCycle_Suc st_def [symmetric] f)
    next
      case False
      then have "length text \<le> index (st\<lparr>timer := None\<rparr>)" using i by simp
      then have "typeNext text pd (st\<lparr>timer := None\<rparr>) = st\<lparr>timer := None\<rparr>"
        by (rule typeNext_done)
      with False v i show ?thesis
        by (simp add: playCycle_Suc st_def [symmetric] f)
    qed
  qed
qed

lemma playCycle_idle:
  "timer (playCycle text pd k s) = None \<Longrightarrow>
   playCycle text pd (Suc k) s = playCycle text pd k s"
  by (simp add: playCycle_Suc fire_def)

text \<open>
  Claim C10, as amended. In a play cycle of the Typewriter the number of visible characters
  after \<open>k\<close> fired timeouts is \<open>min k (length text)\<close>, so it stays between 0 and the
  length of the text and the string on the screen is a prefix of the text. When the text is
  not empty every timeout that fires increases the count by exactly one; when no timeout is
  pending nothing changes; stopping resets the count to 0.
\<close>

theorem typewriter_reveals_prefix:
  "visibleChars (playCycle text pd k s) = min k (length text)
   \<and> visibleChars (playCycle text pd k s) \<le> length text
   \<and> prefix (rendered text (playCycle text pd k s)) text
   \<and> (text \<noteq> [] \<and> timer (playCycle text pd k s) \<noteq> None \<longrightarrow>
        visibleChars (playCycle text pd (Suc k) s) = visibleChars (playCycle text pd k s) + 1)
   \<and> (timer (playCycle text pd k s) = None \<longrightarrow>
        playCycle text pd (Suc k) s = playCycle text pd k s)
   \<and> visibleChars (typingEffect text False pd s) = 0"
proof -
  have a: "visibleChars (playCycle text pd k s) = min k (length text)"
    by (simp add: playCycle_inv)
  have b: "prefix (rendered text (playCycle text pd k s)) text"
    by (simp add: rendered_def take_is_prefix)
  have c: "visibleChars (playCycle text pd (Suc k) s) = visibleChars (playCycle text pd k s) + 1"
    if "text \<noteq> []" "timer (playCycle text pd k s) \<noteq> None"
  proof -
    from that have "k < length text"
      using playCycle_inv [of "text" pd k s] by (cases k) auto
    then show ?thesis
      using playCycle_inv [of "text" pd k s] playCycle_inv [of "text" pd "Suc k" s] by simp
  qed
  have d: "visibleChars (typingEffect text False pd s) = 0"
    by (simp add: typingEffect_def)
  from a b c d playCycle_idle [of "text" pd k s] show ?thesis
    by (intro conjI impI) simp_all
qed

theorem typewriter_reveals_prefix_witness:
  "''ab'' \<noteq> []
   \<and> timer (playCycle ''ab'' True 1 \<lparr>visibleChars = 0, index = 0, timer = None\<rparr>) \<noteq> None
   \<and> visibleChars (playCycle ''ab'' True (Suc 1) \<lparr>visibleChars = 0, index = 0, timer = None\<rparr>) = 2
   \<and> timer (playCycle ''ab'' True 2 \<lparr>visibleChars = 0, index = 0, timer = None\<rparr>) = None
   \<and> rendered ''ab'' (playCycle ''ab'' True 3 \<lparr>visibleChars = 0, index = 0, timer = None\<rparr>) = ''ab''"
  using typewriter_reveals_prefix [of "''ab''" True 1 "\<lparr>visibleChars = 0, index = 0, timer = None\<rparr>"]
    typewriter_reveals_prefix [of "''ab''" True 2 "\<lparr>visibleChars = 0, index = 0, timer = None\<rparr>"]
  by (simp add: playCycle_def typingEffect_def fire_def typeNext_def rendered_def
      numeral_2_eq_2 numeral_3_eq_3 CONFIG_def)

text \<open>
  On the empty text the first timeout is scheduled and fires, and the guard at the head of
  \<open>typeNext\<close> returns without a change: this fired step does not increase the count.
\<close>

theorem typewriter_empty_text_step:
  "timer (playCycle '''' False 0 \<lparr>visibleChars = 0, index = 0, timer = None\<rparr>) = Some 80
   \<and> visibleChars (playCycle '''' False (Suc 0) \<lparr>visibleChars = 0, index = 0, timer = None\<rparr>)
       \<noteq> visibleChars (playCycle '''' False 0 \<lparr>visibleChars = 0, index = 0, timer = None\<rparr>) + 1"
  by (simp add: playCycle_def typingEffect_def fire_def typeNext_def)

section \<open>The word tokenizer collapses spaces\<close>

lemma splitFrom_span:
  "splitFrom sep piece t =
     (piece @ takeWhile (\<lambda>c. c \<noteq> sep) t) #
     (case dropWhile (\<lambda>c. c \<noteq> sep) t of [] \<Rightarrow> [] | x # r \<Rightarrow> splitFrom sep [] r)"
  by (induction t arbitrary: piece) simp_all

lemma splitWords_alt:
  "splitWords t = filter (\<lambda>w. w \<noteq> []) (splitFrom (CHR '' '') [] t)"
  by (simp add: splitWords_def split_def)

lemma splitWords_Nil: "splitWords [] = []"
  by (simp add: splitWords_alt)

lemma splitWords_space: "splitWords (CHR '' '' # t) = splitWords t"
  by (simp add: splitWords_alt)

lemma splitWords_rest:
  "filter (\<lambda>w. w \<noteq> [])
     (case dropWhile (\<lambda>c. c \<noteq> CHR '' '') t of [] \<Rightarrow> [] | x # r \<Rightarrow> splitFrom (CHR '' '') [] r)
   = splitWords (dropWhile (\<lambda>c. c \<noteq> CHR '' '') t)"
proof -
  define d where "d = dropWhile (\<lambda>c. c \<noteq> CHR '' '') t"
  have "filter (\<lambda>w. w \<noteq> []) (case d of [] \<Rightarrow> [] | x # r \<Rightarrow> splitFrom (CHR '' '') [] r)
      = splitWords d"
  proof (cases d)
    case Nil
    then show ?thesis by (simp add: splitWords_Nil)
  next
    case (Cons x r)
    then have "x = CHR '' ''"
      using hd_dropWhile [of "\<lambda>c. c \<noteq> CHR '' ''" t] by (auto simp add: d_def)
    with Cons show ?thesis
      by (simp add: splitWords_alt)
  qed
  then show ?thesis
    unfolding d_def .
qed

lemma splitWords_word:
  assumes "c \<noteq> CHR '' ''"
  shows "splitWords (c # t) =
     (c # takeWhile (\<lambda>c. c \<noteq> CHR '' '') t) # splitWords (dropWhile (\<lambda>c. c \<noteq> CHR '' '') t)"
proof -
  have "splitFrom (CHR '' '') [] (c # t) =
      (c # takeWhile (\<lambda>c. c \<noteq> CHR '' '') t) #
      (case dropWhile (\<lambda>c. c \<noteq> CHR '' '') t of [] \<Rightarrow> [] | x # r \<Rightarrow> splitFrom (CHR '' '') [] r)"
    using assms by (subst splitFrom_span) simp
  then have "splitWords (c # t) =
      (c # takeWhile (\<lambda>c. c \<noteq> CHR '' '') t) #
      filter (\<lambda>w. w \<noteq> [])
        (case dropWhile (\<lambda>c. c \<noteq> CHR '' '') t of [] \<Rightarrow> [] | x # r \<Rightarrow> splitFrom (CHR '' '') [] r)"
    by (simp add: splitWords_alt)
  then show ?thesis
    by (simp only: splitWords_rest)
qed

lemma splitWords_nonempty_words: "w \<in> set (splitWords t) \<Longrightarrow> w \<noteq> []"
  by (auto simp add: splitWords_def)

lemma joinWith_Cons:
  "joinWith sep (w # ws) = w @ (if ws = [] then [] else sep @ joinWith sep ws)"
  by (cases ws) simp_all

lemma joinWith_empty_iff:
  "\<forall>w \<in> set ws. w \<noteq> [] \<Longrightarrow> joinWith sep ws = [] \<longleftrightarrow> ws = []"
  by (cases ws) (simp_all add: joinWith_Cons)

lemma renderWords_join:
  "ws \<noteq> [] \<Longrightarrow> renderWords ws = joinWith '' '' ws @ '' ''"
proof (induction ws)
  case Nil
  then show ?case by simp
next
  case (Cons w ws)
  show ?case
  proof (cases ws)
    case Nil
    then show ?thesis by (simp add: renderWords_def)
  next
    case (Cons v vs)
    with Cons.IH have "renderWords ws = joinWith '' '' ws @ '' ''" by simp
    then show ?thesis using Cons by (simp add: renderWords_def)
  qed
qed

lemma butlast_renderWords: "butlast (renderWords ws) = joinWith '' '' ws"
proof (cases ws)
  case Nil
  then show ?thesis by (simp add: renderWords_def)
next
  case (Cons w vs)
  then have "ws \<noteq> []" by simp
  then show ?thesis by (simp add: renderWords_join)
qed

lemma squeezeSpaces_nonspace:
  "c \<noteq> CHR '' '' \<Longrightarrow> squeezeSpaces (c # t) = c # squeezeSpaces t"
  by (cases t) simp_all

lemma squeezeSpaces_word:
  "\<forall>c \<in> set w. c \<noteq> CHR '' '' \<Longrightarrow> squeezeSpaces (w @ r) = w @ squeezeSpaces r"
  by (induction w) (simp_all add: squeezeSpaces_nonspace)

lemma squeezeSpaces_space_form:
  "\<exists>y. squeezeSpaces (CHR '' '' # r) = CHR '' '' # y \<and> (y = [] \<or> hd y \<noteq> CHR '' '')"
proof (induction r)
  case Nil
  show ?case by simp
next
  case (Cons d r)
  show ?case
  proof (cases "d = CHR '' ''")
    case True
    with Cons show ?thesis by simp
  next
    case False
    then show ?thesis by (simp add: squeezeSpaces_nonspace)
  qed
qed

lemma dropTrailingSpaces_Nil: "dropTrailingSpaces [] = []"
  by (simp add: dropTrailingSpaces_def)

lemma dropTrailingSpaces_Cons:
  "dropTrailingSpaces (a # y) =
     (if \<forall>c \<in> set y. c = CHR '' '' then (if a = CHR '' '' then [] else [a])
      else a # dropTrailingSpaces y)"
  by (simp add: dropTrailingSpaces_def dropWhile_append)

lemma dropTrailingSpaces_empty_iff:
  "dropTrailingSpaces y = [] \<longleftrightarrow> (\<forall>c \<in> set y. c = CHR '' '')"
  by (simp add: dropTrailingSpaces_def)

lemma dropTrailingSpaces_after_word:
  "\<forall>c \<in> set u. c \<noteq> CHR '' '' \<Longrightarrow> dropTrailingSpaces (u @ x) = u @ dropTrailingSpaces x"
proof (induction u)
  case Nil
  show ?case by simp
next
  case (Cons a u)
  then have IH: "dropTrailingSpaces (u @ x) = u @ dropTrailingSpaces x"
    and a: "a \<noteq> CHR '' ''" and u: "\<forall>c \<in> set u. c \<noteq> CHR '' ''"
    by simp_all
  show ?case
  proof (cases "\<forall>c \<in> set (u @ x). c = CHR '' ''")
    case True
    with u have "u = []" by (cases u) auto
    with True a show ?thesis
      using dropTrailingSpaces_empty_iff [of x]
      by (simp add: dropTrailingSpaces_Cons)
  next
    case False
    then show ?thesis
      by (simp only: append_Cons dropTrailingSpaces_Cons IH if_False)
  qed
qed

lemma collapseSpaces_Nil: "collapseSpaces [] = []"
  by (simp add: collapseSpaces_def trimSpaces_def dropTrailingSpaces_def)

lemma collapseSpaces_space: "collapseSpaces (CHR '' '' # t) = collapseSpaces t"
proof (cases t)
  case Nil
  then show ?thesis
    by (simp add: collapseSpaces_def trimSpaces_def dropTrailingSpaces_def)
next
  case (Cons d r)
  show ?thesis
  proof (cases "d = CHR '' ''")
    case True
    with Cons show ?thesis by (simp add: collapseSpaces_def)
  next
    case False
    with Cons show ?thesis by (simp add: collapseSpaces_def trimSpaces_def)
  qed
qed

lemma dropTrailingSpaces_squeezed_space:
  "dropTrailingSpaces (squeezeSpaces (CHR '' '' # r)) =
     (if collapseSpaces (CHR '' '' # r) = [] then []
      else CHR '' '' # collapseSpaces (CHR '' '' # r))"
proof -
  obtain y where x: "squeezeSpaces (CHR '' '' # r) = CHR '' '' # y"
    and y: "y = [] \<or> hd y \<noteq> CHR '' ''"
    using squeezeSpaces_space_form [of r] by blast
  have lead: "dropWhile (\<lambda>c. c = CHR '' '') y = y"
    using y by (cases y) auto
  have c: "collapseSpaces (CHR '' '' # r) = dropTrailingSpaces y"
    by (simp add: collapseSpaces_def trimSpaces_def x lead)
  show ?thesis
  proof (cases y)
    case Nil
    then show ?thesis
      by (simp add: c x dropTrailingSpaces_Cons dropTrailingSpaces_Nil)
  next
    case (Cons d ds)
    with y have "d \<noteq> CHR '' ''" by simp
    with Cons have "\<not> (\<forall>c \<in> set y. c = CHR '' '')" by auto
    then show ?thesis
      by (simp add: c x dropTrailingSpaces_Cons dropTrailingSpaces_empty_iff)
  qed
qed

lemma collapseSpaces_word:
  assumes "c \<noteq> CHR '' ''"
  shows "collapseSpaces (c # t) =
     (c # takeWhile (\<lambda>c. c \<noteq> CHR '' '') t) @
     (if collapseSpaces (dropWhile (\<lambda>c. c \<noteq> CHR '' '') t) = [] then []
      else CHR '' '' # collapseSpaces (dropWhile (\<lambda>c. c \<noteq> CHR '' '') t))"
proof -
  define w where "w = c # takeWhile (\<lambda>c. c \<noteq> CHR '' '') t"
  define r where "r = dropWhile (\<lambda>c. c \<noteq> CHR '' '') t"
  have t: "c # t = w @ r"
    by (simp add: w_def r_def)
  have w: "\<forall>c \<in> set w. c \<noteq> CHR '' ''"
    using assms by (auto simp add: w_def dest: set_takeWhileD)
  have "squeezeSpaces (c # t) = w @ squeezeSpaces r"
    unfolding t using w by (rule squeezeSpaces_word)
  moreover have "dropWhile (\<lambda>c. c = CHR '' '') (w @ squeezeSpaces r) = w @ squeezeSpaces r"
    using assms by (simp add: w_def)
  ultimately have step: "collapseSpaces (c # t) = w @ dropTrailingSpaces (squeezeSpaces r)"
    using w by (simp add: collapseSpaces_def trimSpaces_def dropTrailingSpaces_after_word)
  have "dropTrailingSpaces (squeezeSpaces r) =
      (if collapseSpaces r = [] then [] else CHR '' '' # collapseSpaces r)"
  proof (cases r)
    case Nil
    then show ?thesis by (simp add: collapseSpaces_Nil dropTrailingSpaces_Nil)
  next
    case (Cons x r')
    then have "x = CHR '' ''"
      using hd_dropWhile [of "\<lambda>c. c \<noteq> CHR '' ''" t] by (auto simp add: r_def)
    with Cons show ?thesis
      by (simp only: dropTrailingSpaces_squeezed_space)
  qed
  with step show ?thesis
    by (simp add: w_def r_def)
qed

lemma join_splitWords:
  "joinWith '' '' (splitWords t) = collapseSpaces t"
proof (induction t rule: length_induct)
  case (1 t)
  show ?case
  proof (cases t)
    case Nil
    then show ?thesis by (simp add: splitWords_Nil collapseSpaces_Nil)
  next
    case (Cons c t')
    show ?thesis
    proof (cases "c = CHR '' ''")
      case True
      have "length t' < length t" using Cons by simp
      with 1 have "joinWith '' '' (splitWords t') = collapseSpaces t'" by blast
      with True Cons show ?thesis
        by (simp add: splitWords_space collapseSpaces_space)
    next
      case False
      define r where "r = dropWhile (\<lambda>c. c \<noteq> CHR '' '') t'"
      have "length r < length t"
        using Cons length_dropWhile_le [of "\<lambda>c. c \<noteq> CHR '' ''" t'] by (simp add: r_def)
      with 1 have IH: "joinWith '' '' (splitWords r) = collapseSpaces r" by blast
      have "\<forall>w \<in> set (splitWords r). w \<noteq> []"
        by (simp add: splitWords_nonempty_words)
      then have e: "splitWords r = [] \<longleftrightarrow> collapseSpaces r = []"
        using joinWith_empty_iff [of "splitWords r" "'' ''"] IH by simp
      show ?thesis
        unfolding Cons
        by (simp add: splitWords_word [OF False] collapseSpaces_word [OF False]
            joinWith_Cons r_def [symmetric] e IH)
    qed
  qed
qed

text \<open>
  Claim C8. Word tokenization is a function of the text alone, so two calls on the same text
  return the same sequence. Joining the word tokens with single spaces gives the text with
  its whitespace collapsed: every run of spaces (the only delimiter of the tokenizer)
  replaced by one space, and the spaces at both ends removed. The rendered words, each
  followed by a space, are that string up to the last trailing space.
\<close>

theorem word_tokens_reconstruct_collapsed_text:
  "splitWords t = splitWords t
   \<and> joinWith '' '' (splitWords t) = collapseSpaces t
   \<and> butlast (renderWords (splitWords t)) = collapseSpaces t"
  by (simp add: join_splitWords butlast_renderWords)

end
